theory Spec2Isabelle
  imports Complex_Main
begin

section \<open>Schema reconciliation of the taxi batches: the function \<open>clean\<close>\<close>

text \<open>
  The notebook cell under study is

  \<^verbatim>\<open>
  def clean(ddf, must_haves):
      tmp = {col:col.strip().lower() for col in list(ddf.columns)}
      ddf = ddf.rename(columns=tmp)
      ddf = ddf.rename(columns={
          'tpep_pickup_datetime': 'pickup_datetime',
          'tpep_dropoff_datetime': 'dropoff_datetime',
          'ratecodeid': 'rate_code'
      })
      ddf['pickup_datetime'] = ddf['pickup_datetime'].astype('datetime64[ms]')
      ddf['dropoff_datetime'] = ddf['dropoff_datetime'].astype('datetime64[ms]')
      for col in ddf.columns:
          if col not in must_haves:
              ddf = ddf.drop(columns=col)
              continue
          if ddf[col].dtype == 'object':
              ddf[col] = ddf[col].str.fillna('-1')
              ddf[col] = ddf[col].astype('float32')
          else:
              if 'int' in str(ddf[col].dtype):
                  ddf[col] = ddf[col].astype('int32')
              if 'float' in str(ddf[col].dtype):
                  ddf[col] = ddf[col].astype('float32')
              ddf[col] = ddf[col].fillna(-1)
      return ddf
  \<close>

  It is applied to every partition of the yearly CSV exports. The data frame, its columns
  and the element conversions belong to the data-frame library; the theory gives them the
  shape the cell relies on and keeps the conversions of single elements as a parameter.
\<close>

subsection \<open>Python strings: \<open>strip\<close>, \<open>lower\<close>, \<open>in\<close>\<close>

text \<open>
  A string is a list of code points; a \<^typ>\<open>char\<close> stands for a code point below 256.
  \<open>str.strip()\<close> removes the characters for which \<open>str.isspace()\<close> holds from both ends,
  \<open>str.lower()\<close> maps every cased character to its lower-case form.
\<close>

definition isspace :: "char \<Rightarrow> bool" where
  "isspace c = (let n = (of_char c :: nat)
                in (9 \<le> n \<and> n \<le> 13) \<or> (28 \<le> n \<and> n \<le> 32) \<or> n = 133 \<or> n = 160)"

definition lower_char :: "char \<Rightarrow> char" where
  "lower_char c = (let n = (of_char c :: nat)
                   in if (65 \<le> n \<and> n \<le> 90) \<or> (192 \<le> n \<and> n \<le> 222 \<and> n \<noteq> 215)
                      then char_of (n + 32) else c)"

definition strip :: "string \<Rightarrow> string" where
  "strip s = rev (dropWhile isspace (rev (dropWhile isspace s)))"

definition lower :: "string \<Rightarrow> string" where
  "lower s = map lower_char s"

fun startswith :: "string \<Rightarrow> string \<Rightarrow> bool" where
  "startswith s [] = True"
| "startswith [] (p # ps) = False"
| "startswith (c # cs) (p # ps) = (c = p \<and> startswith cs ps)"

text \<open>\<open>contains sub s\<close> is Python's \<open>sub in s\<close> on strings.\<close>

fun contains :: "string \<Rightarrow> string \<Rightarrow> bool" where
  "contains sub [] = (sub = [])"
| "contains sub (c # cs) = (startswith (c # cs) sub \<or> contains sub cs)"

subsection \<open>Columns, frames and the element conversions of the library\<close>

text \<open>
  A column has a dtype, written as the string that \<open>str(dtype)\<close> prints
  (\<open>object\<close>, \<open>int64\<close>, \<open>float32\<close>, \<open>datetime64[ms]\<close>), and a list of cells. A cell is
  \<open>None\<close> where the entry is missing and \<open>Some v\<close> otherwise.
\<close>

datatype 'v series = Series (dtype: string) (cells: "'v option list")

text \<open>
  A frame maps column names to columns and keeps the order of insertion, as a Python
  dictionary does: an association list in which a name is looked up with \<^const>\<open>map_of\<close>.
\<close>

type_synonym 'v frame = "(string \<times> 'v series) list"

definition columns :: "'v frame \<Rightarrow> string list" where
  "columns ddf = map fst ddf"

text \<open>
  What the library does to a single element is a parameter of the model:
  \<^item> \<open>convert src dst v\<close> is the value of \<open>v\<close>, an element of a column of dtype \<open>src\<close>, in
    dtype \<open>dst\<close>, and \<open>None\<close> where the library refuses the conversion (text that is not a
    number, for instance);
  \<^item> \<open>text_scalar s\<close> is the Python string \<open>s\<close> as an element of a text column;
  \<^item> \<open>num_scalar dst n\<close> is the Python integer \<open>n\<close> as an element of a column of dtype
    \<open>dst\<close>.
\<close>

record 'v lib =
  convert :: "string \<Rightarrow> string \<Rightarrow> 'v \<Rightarrow> 'v option"
  text_scalar :: "string \<Rightarrow> 'v"
  num_scalar :: "string \<Rightarrow> int \<Rightarrow> 'v"

datatype error = KeyError | CastError

text \<open>
  \<open>KeyError\<close> is what indexing a frame with an absent column name raises (the schema
  mismatch); \<open>CastError\<close> stands for the exception of a refused conversion (the type
  coercion error).
\<close>

subsection \<open>The operations of the library that \<open>clean\<close> calls\<close>

text \<open>\<open>ddf[col]\<close>\<close>

definition getitem :: "'v frame \<Rightarrow> string \<Rightarrow> error + 'v series" where
  "getitem ddf col = (case map_of ddf col of None \<Rightarrow> Inl KeyError | Some s \<Rightarrow> Inr s)"

text \<open>
  \<open>ddf[col] = s\<close>: an existing column is replaced where it stands, a new one is appended.
\<close>

fun setitem :: "string \<Rightarrow> 'v series \<Rightarrow> 'v frame \<Rightarrow> 'v frame" where
  "setitem col s [] = [(col, s)]"
| "setitem col s ((k, t) # ddf) =
     (if k = col then (col, s) # ddf else (k, t) # setitem col s ddf)"

text \<open>
  \<open>ddf.rename(columns=mapper)\<close> returns a new frame whose columns are those of \<open>ddf\<close>, in
  order, each under the name \<open>mapper.get(name, name)\<close>. The columns are stored under their
  names, so of several columns that arrive at one name the last one is kept, at the place
  of the first.
\<close>

definition new_name :: "(string \<times> string) list \<Rightarrow> string \<Rightarrow> string" where
  "new_name mapper k = (case map_of mapper k of None \<Rightarrow> k | Some k' \<Rightarrow> k')"

definition rename :: "(string \<times> string) list \<Rightarrow> 'v frame \<Rightarrow> 'v frame" where
  "rename mapper ddf = foldl (\<lambda>acc (k, s). setitem (new_name mapper k) s acc) [] ddf"

text \<open>\<open>ddf.drop(columns=col)\<close> returns a new frame without the column and raises on an absent name.\<close>

definition drop_column :: "string \<Rightarrow> 'v frame \<Rightarrow> error + 'v frame" where
  "drop_column col ddf =
     (if col \<in> set (columns ddf) then Inr (filter (\<lambda>(k, s). k \<noteq> col) ddf) else Inl KeyError)"

text \<open>
  \<open>s.astype(dst)\<close> converts every present element and leaves missing entries missing; it
  raises when one conversion is refused. A column that has the dtype already is returned
  as it is.
\<close>

definition astype_cell :: "'v lib \<Rightarrow> string \<Rightarrow> string \<Rightarrow> 'v option \<Rightarrow> 'v option option" where
  "astype_cell L src dst c =
     (case c of None \<Rightarrow> Some None
      | Some v \<Rightarrow> (case convert L src dst v of None \<Rightarrow> None | Some w \<Rightarrow> Some (Some w)))"

definition astype :: "'v lib \<Rightarrow> string \<Rightarrow> 'v series \<Rightarrow> error + 'v series" where
  "astype L dst s =
     (if dtype s = dst then Inr s
      else (case those (map (astype_cell L (dtype s) dst) (cells s)) of
              None \<Rightarrow> Inl CastError
            | Some cs \<Rightarrow> Inr (Series dst cs)))"

text \<open>\<open>s.fillna(v)\<close> and \<open>s.str.fillna(v)\<close> put \<open>v\<close> in place of every missing entry.\<close>

definition fill_cell :: "'v \<Rightarrow> 'v option \<Rightarrow> 'v option" where
  "fill_cell v c = (case c of None \<Rightarrow> Some v | Some w \<Rightarrow> Some w)"

definition fillna :: "'v \<Rightarrow> 'v series \<Rightarrow> 'v series" where
  "fillna v s = Series (dtype s) (map (fill_cell v) (cells s))"

definition str_fillna :: "'v lib \<Rightarrow> string \<Rightarrow> 'v series \<Rightarrow> 'v series" where
  "str_fillna L txt s = fillna (text_scalar L txt) s"

definition num_fillna :: "'v lib \<Rightarrow> int \<Rightarrow> 'v series \<Rightarrow> 'v series" where
  "num_fillna L n s = fillna (num_scalar L (dtype s) n) s"

subsection \<open>The configuration: \<open>must_haves\<close> and the table of aliases\<close>

definition must_haves :: "(string \<times> string) list" where
  "must_haves =
     [(''pickup_datetime'', ''datetime64[s]''),
      (''dropoff_datetime'', ''datetime64[s]''),
      (''passenger_count'', ''int32''),
      (''trip_distance'', ''float32''),
      (''pickup_longitude'', ''float32''),
      (''pickup_latitude'', ''float32''),
      (''rate_code'', ''int32''),
      (''dropoff_longitude'', ''float32''),
      (''dropoff_latitude'', ''float32''),
      (''fare_amount'', ''float32'')]"

definition aliases :: "(string \<times> string) list" where
  "aliases =
     [(''tpep_pickup_datetime'', ''pickup_datetime''),
      (''tpep_dropoff_datetime'', ''dropoff_datetime''),
      (''ratecodeid'', ''rate_code'')]"

subsection \<open>\<open>clean\<close>\<close>

text \<open>\<open>ddf[col] = f(ddf[col])\<close>, where \<open>f\<close> may raise.\<close>

definition assign :: "string \<Rightarrow> ('v series \<Rightarrow> error + 'v series) \<Rightarrow> 'v frame \<Rightarrow> error + 'v frame" where
  "assign col f ddf =
     (case getitem ddf col of Inl e \<Rightarrow> Inl e
      | Inr s \<Rightarrow> (case f s of Inl e \<Rightarrow> Inl e | Inr s' \<Rightarrow> Inr (setitem col s' ddf)))"

definition then_do :: "error + 'a \<Rightarrow> ('a \<Rightarrow> error + 'b) \<Rightarrow> error + 'b" where
  "then_do r f = (case r of Inl e \<Rightarrow> Inl e | Inr x \<Rightarrow> f x)"

text \<open>The body of the loop, for one column name.\<close>

definition clean_column :: "'v lib \<Rightarrow> (string \<times> string) list \<Rightarrow> string \<Rightarrow> 'v frame \<Rightarrow> error + 'v frame" where
  "clean_column L mh col ddf =
     (if col \<notin> set (map fst mh) then drop_column col ddf
      else then_do (getitem ddf col) (\<lambda>s.
        if dtype s = ''object'' then
          then_do (assign col (\<lambda>s. Inr (str_fillna L ''-1'' s)) ddf) (\<lambda>ddf.
          assign col (astype L ''float32'') ddf)
        else
          then_do (if contains ''int'' (dtype s)
                   then assign col (astype L ''int32'') ddf else Inr ddf) (\<lambda>ddf.
          then_do (getitem ddf col) (\<lambda>s.
          then_do (if contains ''float'' (dtype s)
                   then assign col (astype L ''float32'') ddf else Inr ddf) (\<lambda>ddf.
          assign col (\<lambda>s. Inr (num_fillna L (- 1) s)) ddf)))))"

text \<open>
  The loop runs over the column names \<open>ddf.columns\<close> as they are when it starts; the frame
  it works on changes underneath.
\<close>

fun clean_loop :: "'v lib \<Rightarrow> (string \<times> string) list \<Rightarrow> string list \<Rightarrow> 'v frame \<Rightarrow> error + 'v frame" where
  "clean_loop L mh [] ddf = Inr ddf"
| "clean_loop L mh (col # cols) ddf =
     then_do (clean_column L mh col ddf) (clean_loop L mh cols)"

definition normalized :: "'v frame \<Rightarrow> 'v frame" where
  "normalized ddf = rename (map (\<lambda>col. (col, lower (strip col))) (columns ddf)) ddf"

definition resolved :: "'v frame \<Rightarrow> 'v frame" where
  "resolved ddf = rename aliases (normalized ddf)"

definition clean :: "'v lib \<Rightarrow> 'v frame \<Rightarrow> (string \<times> string) list \<Rightarrow> error + 'v frame" where
  "clean L ddf mh =
     then_do (assign ''pickup_datetime'' (astype L ''datetime64[ms]'') (resolved ddf)) (\<lambda>ddf.
     then_do (assign ''dropoff_datetime'' (astype L ''datetime64[ms]'') ddf) (\<lambda>ddf.
     clean_loop L mh (columns ddf) ddf))"

subsection \<open>What \<open>clean\<close> does to one column, and to the names\<close>

text \<open>The two casts of the timestamp columns, which come before the loop.\<close>

definition cast_stamps :: "'v lib \<Rightarrow> 'v frame \<Rightarrow> error + 'v frame" where
  "cast_stamps L ddf =
     then_do (assign ''pickup_datetime'' (astype L ''datetime64[ms]'') ddf)
       (assign ''dropoff_datetime'' (astype L ''datetime64[ms]''))"


text \<open>
  The name under which a raw column ends up after the two renamings.
\<close>

definition canonical :: "string \<Rightarrow> string" where
  "canonical col = new_name aliases (lower (strip col))"


text \<open>
  The branches of the loop body, read as a function of the column alone: what a retained
  column becomes, and the dtype it ends with.
\<close>

definition out_series :: "'v lib \<Rightarrow> 'v series \<Rightarrow> error + 'v series" where
  "out_series L s =
     (if dtype s = ''object'' then astype L ''float32'' (str_fillna L ''-1'' s)
      else then_do (if contains ''int'' (dtype s) then astype L ''int32'' s else Inr s) (\<lambda>s.
           then_do (if contains ''float'' (dtype s) then astype L ''float32'' s else Inr s) (\<lambda>s.
           Inr (num_fillna L (- 1) s))))"

definition out_dtype :: "string \<Rightarrow> string" where
  "out_dtype t =
     (if t = ''object'' then ''float32''
      else if contains ''int'' t then ''int32''
      else if contains ''float'' t then ''float32''
      else t)"

text \<open>The loop, read as a function of the list of columns it starts with.\<close>

fun process :: "'v lib \<Rightarrow> (string \<times> string) list \<Rightarrow> 'v frame \<Rightarrow> error + 'v frame" where
  "process L mh [] = Inr []"
| "process L mh ((k, s) # ddf) =
     (if k \<notin> set (map fst mh) then process L mh ddf
      else then_do (out_series L s) (\<lambda>s'.
           then_do (process L mh ddf) (\<lambda>ddf'. Inr ((k, s') # ddf'))))"

definition schema :: "'v frame \<Rightarrow> (string \<times> string) list" where
  "schema ddf = map (\<lambda>(k, s). (k, dtype s)) ddf"


subsection \<open>\<open>clean\<close> on a store of frames\<close>

text \<open>
  In Python \<open>ddf\<close> is a reference to a frame object. \<open>rename\<close> and \<open>drop\<close> build a new
  object and the local name is bound to it; \<open>ddf[col] = ...\<close> changes the object the local
  name refers to. The store is the list of the objects allocated so far, a reference is an
  index into it.
\<close>

type_synonym 'v store = "'v frame list"

type_synonym ('v, 'a) prog = "'v store \<Rightarrow> (error + 'a) \<times> 'v store"

definition seq :: "('v, 'a) prog \<Rightarrow> ('a \<Rightarrow> ('v, 'b) prog) \<Rightarrow> ('v, 'b) prog" where
  "seq p f = (\<lambda>h. case p h of (Inl e, h') \<Rightarrow> (Inl e, h') | (Inr x, h') \<Rightarrow> f x h')"

definition ret :: "'a \<Rightarrow> ('v, 'a) prog" where
  "ret x = (\<lambda>h. (Inr x, h))"

definition rename_ref :: "(string \<times> string) list \<Rightarrow> nat \<Rightarrow> ('v, nat) prog" where
  "rename_ref mapper r = (\<lambda>h. (Inr (length h), h @ [rename mapper (h ! r)]))"

definition drop_ref :: "string \<Rightarrow> nat \<Rightarrow> ('v, nat) prog" where
  "drop_ref col r =
     (\<lambda>h. case drop_column col (h ! r) of
            Inl e \<Rightarrow> (Inl e, h)
          | Inr ddf \<Rightarrow> (Inr (length h), h @ [ddf]))"

definition getitem_ref :: "nat \<Rightarrow> string \<Rightarrow> ('v, 'v series) prog" where
  "getitem_ref r col = (\<lambda>h. (getitem (h ! r) col, h))"

definition assign_ref :: "string \<Rightarrow> ('v series \<Rightarrow> error + 'v series) \<Rightarrow> nat \<Rightarrow> ('v, unit) prog" where
  "assign_ref col f r =
     (\<lambda>h. case assign col f (h ! r) of
            Inl e \<Rightarrow> (Inl e, h)
          | Inr ddf \<Rightarrow> (Inr (), h[r := ddf]))"

definition clean_column_ref :: "'v lib \<Rightarrow> (string \<times> string) list \<Rightarrow> string \<Rightarrow> nat \<Rightarrow> ('v, nat) prog" where
  "clean_column_ref L mh col r =
     (if col \<notin> set (map fst mh) then drop_ref col r
      else seq (getitem_ref r col) (\<lambda>s.
        if dtype s = ''object'' then
          seq (assign_ref col (\<lambda>s. Inr (str_fillna L ''-1'' s)) r) (\<lambda>_.
          seq (assign_ref col (astype L ''float32'') r) (\<lambda>_. ret r))
        else
          seq (if contains ''int'' (dtype s)
               then assign_ref col (astype L ''int32'') r else ret ()) (\<lambda>_.
          seq (getitem_ref r col) (\<lambda>s.
          seq (if contains ''float'' (dtype s)
               then assign_ref col (astype L ''float32'') r else ret ()) (\<lambda>_.
          seq (assign_ref col (\<lambda>s. Inr (num_fillna L (- 1) s)) r) (\<lambda>_. ret r))))))"

fun clean_loop_ref :: "'v lib \<Rightarrow> (string \<times> string) list \<Rightarrow> string list \<Rightarrow> nat \<Rightarrow> ('v, nat) prog" where
  "clean_loop_ref L mh [] r = ret r"
| "clean_loop_ref L mh (col # cols) r =
     seq (clean_column_ref L mh col r) (clean_loop_ref L mh cols)"

definition clean_ref :: "'v lib \<Rightarrow> nat \<Rightarrow> (string \<times> string) list \<Rightarrow> ('v, nat) prog" where
  "clean_ref L r mh =
     (\<lambda>h. (seq (rename_ref (map (\<lambda>col. (col, lower (strip col))) (columns (h ! r))) r) (\<lambda>r.
            seq (rename_ref aliases r) (\<lambda>r.
            seq (assign_ref ''pickup_datetime'' (astype L ''datetime64[ms]'') r) (\<lambda>_.
            seq (assign_ref ''dropoff_datetime'' (astype L ''datetime64[ms]'') r) (\<lambda>_.
            (\<lambda>h. clean_loop_ref L mh (columns (h ! r)) r h)))))) h)"

text \<open>
  Two notions for reasoning about the store. \<open>put_column r col t h\<close> is the store \<open>h\<close>
  after \<open>ddf[col] = t\<close> on the object at \<open>r\<close>. A run on the store agrees with a result on
  frames when it leaves the first \<open>n\<close> objects as they were, raises the same exception
  or returns a reference, not among the first \<open>n\<close>, to the resulting frame.
\<close>

definition put_column :: "nat \<Rightarrow> string \<Rightarrow> 'v series \<Rightarrow> 'v store \<Rightarrow> 'v store" where
  "put_column r col t h = h[r := setitem col t (h ! r)]"

definition agrees :: "nat \<Rightarrow> 'v store \<Rightarrow> (error + nat) \<times> 'v store \<Rightarrow> error + 'v frame \<Rightarrow> bool" where
  "agrees n h run res =
     (case run of (x, h') \<Rightarrow>
        length h \<le> length h' \<and> take n h' = take n h \<and>
        (case (res, x) of
           (Inl e, Inl e') \<Rightarrow> e = e'
         | (Inr ddf, Inr r') \<Rightarrow> n \<le> r' \<and> r' < length h' \<and> h' ! r' = ddf
         | _ \<Rightarrow> False))"

subsection \<open>An instance of the element conversions\<close>

text \<open>
  To run \<open>clean\<close> on concrete batches the conversions need an instance. This one reads
  plain decimal literals (\<open>12.5\<close>, \<open>-1\<close>) exactly, as rationals, turns seconds into
  milliseconds, keeps numbers as they are between the other numeric and timestamp dtypes,
  and refuses everything else.
\<close>

datatype val = Text string | Num rat

definition digit :: "char \<Rightarrow> nat option" where
  "digit c = (let n = (of_char c :: nat) in if 48 \<le> n \<and> n \<le> 57 then Some (n - 48) else None)"

fun digits :: "nat \<Rightarrow> string \<Rightarrow> nat option" where
  "digits acc [] = Some acc"
| "digits acc (c # cs) = (case digit c of None \<Rightarrow> None | Some d \<Rightarrow> digits (10 * acc + d) cs)"

definition unsigned_decimal :: "string \<Rightarrow> rat option" where
  "unsigned_decimal s =
     (let ip = takeWhile (\<lambda>c. c \<noteq> CHR ''.'') s; rest = dropWhile (\<lambda>c. c \<noteq> CHR ''.'') s
      in case rest of
           [] \<Rightarrow> (if ip = [] then None else map_option of_nat (digits 0 ip))
         | dot # fp \<Rightarrow>
             (if ip = [] \<and> fp = [] then None
              else (case (digits 0 ip, digits 0 fp) of
                      (Some a, Some b) \<Rightarrow> Some (of_nat a + of_nat b / 10 ^ length fp)
                    | _ \<Rightarrow> None)))"

definition decimal :: "string \<Rightarrow> rat option" where
  "decimal s =
     (case s of
        [] \<Rightarrow> None
      | c # cs \<Rightarrow> (if c = CHR ''-'' then map_option uminus (unsigned_decimal cs)
                   else unsigned_decimal s))"

definition ref_convert :: "string \<Rightarrow> string \<Rightarrow> val \<Rightarrow> val option" where
  "ref_convert src dst v =
     (case v of
        Text s \<Rightarrow> (if dst \<in> {''float32'', ''int32''} then map_option Num (decimal s) else None)
      | Num q \<Rightarrow> (if dst = ''object'' then None
                  else if src = ''datetime64[s]'' \<and> dst = ''datetime64[ms]'' then Some (Num (1000 * q))
                  else Some (Num q)))"

definition ref_lib :: "val lib" where
  "ref_lib = \<lparr>convert = ref_convert, text_scalar = Text, num_scalar = (\<lambda>dst n. Num (of_int n))\<rparr>"

subsection \<open>Two partitions\<close>

text \<open>
  A partition with the column names of the 2014 files (leading blanks, \<open>rate_code\<close>) and one
  with those of the 2015 files (\<open>tpep_\<close> prefixes, \<open>RateCodeID\<close>), where two columns were
  read as text.
\<close>

definition batch_2014 :: "val frame" where
  "batch_2014 =
     [(''vendor_id'', Series ''object'' [Some (Text ''CMT''), Some (Text ''VTS'')]),
      ('' pickup_datetime'', Series ''datetime64[s]'' [Some (Num 1389297000), None]),
      ('' dropoff_datetime'', Series ''datetime64[s]'' [Some (Num 1389297420), None]),
      ('' passenger_count'', Series ''int64'' [Some (Num 1), None]),
      ('' trip_distance'', Series ''float64'' [Some (Num (7 / 10)), Some (Num 2)]),
      ('' pickup_longitude'', Series ''float64'' [Some (Num (- 74)), None]),
      ('' pickup_latitude'', Series ''float64'' [Some (Num 41), None]),
      ('' rate_code'', Series ''int64'' [Some (Num 1), Some (Num 1)]),
      ('' dropoff_longitude'', Series ''float64'' [Some (Num (- 74)), None]),
      ('' dropoff_latitude'', Series ''float64'' [Some (Num 41), None]),
      ('' fare_amount'', Series ''float64'' [Some (Num (13 / 2)), Some (Num 9)]),
      ('' tip_amount'', Series ''float64'' [Some (Num 1), None])]"

definition batch_2015 :: "val frame" where
  "batch_2015 =
     [(''VendorID'', Series ''int64'' [Some (Num 2), Some (Num 1), Some (Num 1)]),
      (''tpep_pickup_datetime'', Series ''datetime64[s]'' [Some (Num 1421348739), None, Some (Num 1421348740)]),
      (''tpep_dropoff_datetime'', Series ''datetime64[s]'' [Some (Num 1421349822), None, Some (Num 1421349000)]),
      (''passenger_count'', Series ''object'' [Some (Text ''1''), None, Some (Text ''2'')]),
      (''trip_distance'', Series ''float64'' [Some (Num (159 / 100)), None, Some (Num 3)]),
      (''pickup_longitude'', Series ''float64'' [Some (Num (- 74)), None, Some (Num (- 74))]),
      (''pickup_latitude'', Series ''float64'' [Some (Num 41), None, Some (Num 41)]),
      (''RateCodeID'', Series ''int64'' [Some (Num 1), None, Some (Num 1)]),
      (''dropoff_longitude'', Series ''float64'' [Some (Num (- 74)), None, Some (Num (- 74))]),
      (''dropoff_latitude'', Series ''float64'' [Some (Num 41), None, Some (Num 41)]),
      (''fare_amount'', Series ''object'' [Some (Text ''12.5''), None, Some (Text ''9.0'')]),
      (''extra'', Series ''float64'' [Some (Num 1), None, Some (Num 0)])]"

definition clean_2014 :: "val frame" where
  "clean_2014 =
     [(''pickup_datetime'', Series ''datetime64[ms]'' [Some (Num 1389297000000), Some (Num (- 1))]),
      (''dropoff_datetime'', Series ''datetime64[ms]'' [Some (Num 1389297420000), Some (Num (- 1))]),
      (''passenger_count'', Series ''int32'' [Some (Num 1), Some (Num (- 1))]),
      (''trip_distance'', Series ''float32'' [Some (Num (7 / 10)), Some (Num 2)]),
      (''pickup_longitude'', Series ''float32'' [Some (Num (- 74)), Some (Num (- 1))]),
      (''pickup_latitude'', Series ''float32'' [Some (Num 41), Some (Num (- 1))]),
      (''rate_code'', Series ''int32'' [Some (Num 1), Some (Num 1)]),
      (''dropoff_longitude'', Series ''float32'' [Some (Num (- 74)), Some (Num (- 1))]),
      (''dropoff_latitude'', Series ''float32'' [Some (Num 41), Some (Num (- 1))]),
      (''fare_amount'', Series ''float32'' [Some (Num (13 / 2)), Some (Num 9)])]"

definition clean_2015 :: "val frame" where
  "clean_2015 =
     [(''pickup_datetime'', Series ''datetime64[ms]'' [Some (Num 1421348739000), Some (Num (- 1)), Some (Num 1421348740000)]),
      (''dropoff_datetime'', Series ''datetime64[ms]'' [Some (Num 1421349822000), Some (Num (- 1)), Some (Num 1421349000000)]),
      (''passenger_count'', Series ''float32'' [Some (Num 1), Some (Num (- 1)), Some (Num 2)]),
      (''trip_distance'', Series ''float32'' [Some (Num (159 / 100)), Some (Num (- 1)), Some (Num 3)]),
      (''pickup_longitude'', Series ''float32'' [Some (Num (- 74)), Some (Num (- 1)), Some (Num (- 74))]),
      (''pickup_latitude'', Series ''float32'' [Some (Num 41), Some (Num (- 1)), Some (Num 41)]),
      (''rate_code'', Series ''int32'' [Some (Num 1), Some (Num (- 1)), Some (Num 1)]),
      (''dropoff_longitude'', Series ''float32'' [Some (Num (- 74)), Some (Num (- 1)), Some (Num (- 74))]),
      (''dropoff_latitude'', Series ''float32'' [Some (Num 41), Some (Num (- 1)), Some (Num 41)]),
      (''fare_amount'', Series ''float32'' [Some (Num (25 / 2)), Some (Num (- 1)), Some (Num 9)])]"

text \<open>Partitions that lack columns, and one with malformed text.\<close>

definition only_stamps :: "val frame" where
  "only_stamps =
     [(''pickup_datetime'', Series ''datetime64[s]'' [Some (Num 1389297000), None]),
      (''dropoff_datetime'', Series ''datetime64[s]'' [Some (Num 1389297420), None])]"



section \<open>Properties\<close>

subsection \<open>Frames as dictionaries\<close>

lemma columns_setitem:
  "columns (setitem k s d) = (if k \<in> set (columns d) then columns d else columns d @ [k])"
  by (induction d) (force simp: columns_def)+

lemma map_of_setitem: "map_of (setitem k s d) = (map_of d)(k \<mapsto> s)"
  by (induction d) (auto simp: fun_eq_iff)

lemma distinct_setitem: "distinct (columns d) \<Longrightarrow> distinct (columns (setitem k s d))"
  by (simp add: columns_setitem)

lemma setitem_same: "map_of d k = Some s \<Longrightarrow> setitem k s d = d"
  by (induction d) (auto split: if_splits)

lemma setitem_twice: "setitem k s (setitem k t d) = setitem k s d"
  by (induction d) auto

lemma setitem_fresh: "k \<notin> set (columns d) \<Longrightarrow> setitem k s d = d @ [(k, s)]"
  by (induction d) (auto simp: columns_def)

lemma setitem_middle:
  "k \<notin> set (columns d1) \<Longrightarrow> setitem k s (d1 @ (k, t) # d2) = d1 @ (k, s) # d2"
  by (induction d1) (auto simp: columns_def)

lemma map_of_middle:
  "k \<notin> set (columns d1) \<Longrightarrow> map_of (d1 @ (k, t) # d2) k = Some t"
  by (induction d1) (auto simp: columns_def)

lemma filter_absent:
  "k \<notin> set (columns d) \<Longrightarrow> filter (\<lambda>(k', s). k' \<noteq> k) d = d"
  by (induction d) (auto simp: columns_def)

lemma map_of_None_columns: "map_of d k = None \<longleftrightarrow> k \<notin> set (columns d)"
  by (simp add: columns_def map_of_eq_None_iff)

lemma filter_middle:
  "k \<notin> set (columns d1) \<Longrightarrow> k \<notin> set (columns d2) \<Longrightarrow>
   filter (\<lambda>(k', s). k' \<noteq> k) (d1 @ (k, t) # d2) = d1 @ d2"
  by (simp add: filter_absent)

subsection \<open>Casting and filling a column\<close>

lemma those_map_astype_cell:
  "those (map (astype_cell L src dst) cs) = Some ds \<Longrightarrow>
   length ds = length cs \<and> (None \<in> set ds \<longleftrightarrow> None \<in> set cs)"
proof (induction cs arbitrary: ds)
  case Nil
  then show ?case by simp
next
  case (Cons c cs)
  then show ?case
    by (cases c) (auto simp: astype_cell_def split: option.splits)
qed




lemma astype_dtype: "astype L dst s = Inr s' \<Longrightarrow> dtype s' = dst"
  by (auto simp: astype_def split: if_splits option.splits)

lemma astype_missing:
  "astype L dst s = Inr s' \<Longrightarrow> (None \<in> set (cells s') \<longleftrightarrow> None \<in> set (cells s))"
  by (auto simp: astype_def split: if_splits option.splits dest: those_map_astype_cell)

lemma astype_same: "dtype s = dst \<Longrightarrow> astype L dst s = Inr s"
  by (simp add: astype_def)

lemma fillna_dtype: "dtype (fillna v s) = dtype s"
  by (simp add: fillna_def)

lemma fillna_no_missing: "None \<notin> set (cells (fillna v s))"
  by (auto simp: fillna_def fill_cell_def split: option.splits)

lemma map_fill_cell_complete: "None \<notin> set cs \<Longrightarrow> map (fill_cell v) cs = cs"
proof (induction cs)
  case Nil
  then show ?case by simp
next
  case (Cons c cs)
  then show ?case by (cases c) (simp_all add: fill_cell_def)
qed

lemma fillna_complete: "None \<notin> set (cells s) \<Longrightarrow> fillna v s = s"
  by (simp add: fillna_def map_fill_cell_complete)

subsection \<open>One column\<close>


lemma out_series_no_missing: "out_series L s = Inr s' \<Longrightarrow> None \<notin> set (cells s')"
  by (auto simp: out_series_def then_do_def str_fillna_def num_fillna_def fillna_no_missing
      split: if_splits sum.splits dest: astype_missing)

lemma contains_int_float32 [simp]: "\<not> contains ''int'' ''float32''"
  by simp

lemma contains_float_float32 [simp]: "contains ''float'' ''float32''"
  by simp

lemma contains_int_int32 [simp]: "contains ''int'' ''int32''"
  by simp

lemma contains_float_int32 [simp]: "\<not> contains ''float'' ''int32''"
  by simp

lemma out_series_dtype: "out_series L s = Inr s' \<Longrightarrow> dtype s' = out_dtype (dtype s)"
  by (auto simp: out_series_def out_dtype_def then_do_def str_fillna_def num_fillna_def fillna_dtype
      split: if_splits sum.splits dest!: astype_dtype)

lemma out_series_fixed:
  assumes "dtype s \<noteq> ''object''" and "out_dtype (dtype s) = dtype s" and "None \<notin> set (cells s)"
  shows "out_series L s = Inr s"
proof (cases "contains ''int'' (dtype s)")
  case True
  with assms have dt: "dtype s = ''int32''"
    by (simp add: out_dtype_def)
  from assms(3) show ?thesis
    by (simp add: out_series_def dt then_do_def astype_same num_fillna_def fillna_complete)
next
  case no_int: False
  show ?thesis
  proof (cases "contains ''float'' (dtype s)")
    case True
    with assms no_int have dt: "dtype s = ''float32''"
      by (simp add: out_dtype_def)
    from assms(3) show ?thesis
      by (simp add: out_series_def dt then_do_def astype_same num_fillna_def fillna_complete)
  next
    case False
    with assms no_int show ?thesis
      by (simp add: out_series_def then_do_def num_fillna_def fillna_complete)
  qed
qed

lemma out_dtype_not_object: "out_dtype t \<noteq> ''object''"
  by (simp add: out_dtype_def)

lemma out_dtype_idem: "out_dtype (out_dtype t) = out_dtype t"
  by (simp add: out_dtype_def)

lemma out_series_idem: "out_series L s = Inr s' \<Longrightarrow> out_series L s' = Inr s'"
  by (rule out_series_fixed)
     (simp_all add: out_series_dtype out_dtype_not_object out_dtype_idem out_series_no_missing)

subsection \<open>The loop\<close>

lemma assign_found:
  "map_of d k = Some s \<Longrightarrow>
   assign k f d = (case f s of Inl e \<Rightarrow> Inl e | Inr s' \<Rightarrow> Inr (setitem k s' d))"
  by (simp add: assign_def getitem_def)


lemma clean_column_retained:
  assumes "k \<in> set (map fst mh)" and "map_of d k = Some s"
  shows "clean_column L mh k d =
         (case out_series L s of Inl e \<Rightarrow> Inl e | Inr s' \<Rightarrow> Inr (setitem k s' d))"
proof -
  have look: "\<And>t. map_of (setitem k t d) k = Some t"
    by (simp add: map_of_setitem)
  show ?thesis
  proof (cases "dtype s = ''object''")
    case True
    with assms show ?thesis
      by (simp add: clean_column_def out_series_def then_do_def getitem_def assign_found look
          setitem_twice split: sum.splits)
  next
    case False
    with assms show ?thesis
      by (auto simp: clean_column_def out_series_def then_do_def getitem_def assign_found look
          setitem_twice split: sum.splits)
  qed
qed

lemma clean_column_dropped:
  assumes "k \<notin> set (map fst mh)" and "k \<in> set (columns d)"
  shows "clean_column L mh k d = Inr (filter (\<lambda>(k', s). k' \<noteq> k) d)"
  using assms by (simp add: clean_column_def drop_column_def)

lemma clean_loop_process:
  "distinct (columns (d1 @ d2)) \<Longrightarrow>
   clean_loop L mh (columns d2) (d1 @ d2) =
   (case process L mh d2 of Inl e \<Rightarrow> Inl e | Inr d2' \<Rightarrow> Inr (d1 @ d2'))"
proof (induction d2 arbitrary: d1)
  case Nil
  then show ?case by (simp add: columns_def)
next
  case (Cons p d2)
  obtain k s where p: "p = (k, s)" by (cases p)
  from Cons.prems have fresh1: "k \<notin> set (columns d1)" and fresh2: "k \<notin> set (columns d2)"
    and dist: "distinct (columns (d1 @ d2))"
    by (auto simp: p columns_def)
  show ?case
  proof (cases "k \<in> set (map fst mh)")
    case False
    have "k \<in> set (columns (d1 @ (k, s) # d2))"
      by (simp add: columns_def)
    with False have "clean_column L mh k (d1 @ (k, s) # d2) =
        Inr (filter (\<lambda>(k', s). k' \<noteq> k) (d1 @ (k, s) # d2))"
      by (rule clean_column_dropped)
    then have "clean_column L mh k (d1 @ (k, s) # d2) = Inr (d1 @ d2)"
      by (simp only: filter_middle [OF fresh1 fresh2])
    with False Cons.IH [OF dist] show ?thesis
      by (simp add: p columns_def then_do_def)
  next
    case True
    have "clean_column L mh k (d1 @ (k, s) # d2) =
          (case out_series L s of Inl e \<Rightarrow> Inl e
           | Inr s' \<Rightarrow> Inr (setitem k s' (d1 @ (k, s) # d2)))"
      by (rule clean_column_retained [OF True map_of_middle [OF fresh1]])
    then have step: "clean_column L mh k (d1 @ (k, s) # d2) =
          (case out_series L s of Inl e \<Rightarrow> Inl e | Inr s' \<Rightarrow> Inr ((d1 @ [(k, s')]) @ d2))"
      by (cases "out_series L s") (simp_all add: setitem_middle [OF fresh1])
    have dist': "\<And>s'. distinct (columns ((d1 @ [(k, s')]) @ d2))"
      using Cons.prems by (simp add: p columns_def)
    show ?thesis
    proof (cases "out_series L s")
      case (Inl e)
      with step True show ?thesis
        by (simp add: p columns_def then_do_def)
    next
      case (Inr s')
      with step True Cons.IH [OF dist'] show ?thesis
        by (simp add: p columns_def then_do_def split: sum.splits)
    qed
  qed
qed

lemma clean_loop_columns:
  "distinct (columns d) \<Longrightarrow> clean_loop L mh (columns d) d = process L mh d"
  using clean_loop_process [of "[]" d L mh] by (simp split: sum.splits)



lemma process_Cons_retained:
  "k \<in> set (map fst mh) \<Longrightarrow>
   process L mh ((k, s) # d) = Inr out \<longleftrightarrow>
   (\<exists>s' d'. out_series L s = Inr s' \<and> process L mh d = Inr d' \<and> out = (k, s') # d')"
  by (cases "out_series L s"; cases "process L mh d") (auto simp: then_do_def)

lemma process_columns:
  "process L mh d = Inr out \<Longrightarrow> columns out = filter (\<lambda>k. k \<in> set (map fst mh)) (columns d)"
proof (induction d arbitrary: out)
  case Nil
  then show ?case by (simp add: columns_def)
next
  case (Cons p d)
  obtain k s where p: "p = (k, s)" by (cases p)
  show ?case
  proof (cases "k \<in> set (map fst mh)")
    case False
    with Cons.prems have "process L mh d = Inr out"
      by (simp add: p)
    from Cons.IH [OF this] False show ?thesis
      by (simp add: p columns_def)
  next
    case True
    with Cons.prems obtain s' d' where "process L mh d = Inr d'" and out: "out = (k, s') # d'"
      unfolding p process_Cons_retained [OF True] by blast
    from Cons.IH [OF this(1)] True show ?thesis
      by (simp add: p out columns_def)
  qed
qed

lemma process_lookup:
  "process L mh d = Inr out \<Longrightarrow> k \<in> set (map fst mh) \<Longrightarrow> map_of d k = Some s \<Longrightarrow>
   \<exists>s'. out_series L s = Inr s' \<and> map_of out k = Some s'"
proof (induction d arbitrary: out)
  case Nil
  then show ?case by simp
next
  case (Cons p d)
  obtain k0 s0 where p: "p = (k0, s0)" by (cases p)
  show ?case
  proof (cases "k0 \<in> set (map fst mh)")
    case False
    with Cons.prems have "process L mh d = Inr out" and "map_of d k = Some s"
      by (auto simp: p split: if_splits)
    from Cons.IH [OF this(1) Cons.prems(2) this(2)] show ?thesis .
  next
    case True
    with Cons.prems(1) obtain s' d' where s': "out_series L s0 = Inr s'"
      and d': "process L mh d = Inr d'" and out: "out = (k0, s') # d'"
      unfolding p process_Cons_retained [OF True] by blast
    show ?thesis
    proof (cases "k = k0")
      case True
      with Cons.prems(3) s' show ?thesis
        by (simp add: p out)
    next
      case False
      with Cons.prems(3) have "map_of d k = Some s"
        by (simp add: p)
      from Cons.IH [OF d' Cons.prems(2) this] False show ?thesis
        by (simp add: out)
    qed
  qed
qed

lemma process_member:
  "process L mh d = Inr out \<Longrightarrow> (k, s') \<in> set out \<Longrightarrow>
   k \<in> set (map fst mh) \<and> (\<exists>s. (k, s) \<in> set d \<and> out_series L s = Inr s')"
proof (induction d arbitrary: out)
  case Nil
  then show ?case by simp
next
  case (Cons p d)
  obtain k0 s0 where p: "p = (k0, s0)" by (cases p)
  show ?case
  proof (cases "k0 \<in> set (map fst mh)")
    case False
    with Cons.prems have "process L mh d = Inr out"
      by (simp add: p)
    from Cons.IH [OF this Cons.prems(2)] show ?thesis
      by auto
  next
    case True
    with Cons.prems(1) obtain t d' where t: "out_series L s0 = Inr t"
      and d': "process L mh d = Inr d'" and out: "out = (k0, t) # d'"
      unfolding p process_Cons_retained [OF True] by blast
    from Cons.prems(2) consider "k = k0" "s' = t" | "(k, s') \<in> set d'"
      by (auto simp: out)
    then show ?thesis
    proof cases
      case 1
      with True t show ?thesis by (auto simp: p)
    next
      case 2
      from Cons.IH [OF d' this] show ?thesis by auto
    qed
  qed
qed

lemma process_fixed:
  "(\<And>k s. (k, s) \<in> set d \<Longrightarrow> k \<in> set (map fst mh) \<and> out_series L s = Inr s) \<Longrightarrow>
   process L mh d = Inr d"
proof (induction d)
  case Nil
  then show ?case by simp
next
  case (Cons p d)
  obtain k s where p: "p = (k, s)" by (cases p)
  from Cons.prems [of k s] have "k \<in> set (map fst mh)" and "out_series L s = Inr s"
    by (simp_all add: p)
  moreover have "process L mh d = Inr d"
  proof (rule Cons.IH)
    fix k' s'
    assume "(k', s') \<in> set d"
    then have "(k', s') \<in> set (p # d)" by simp
    then show "k' \<in> set (map fst mh) \<and> out_series L s' = Inr s'"
      by (rule Cons.prems)
  qed
  ultimately show ?case
    by (simp add: p then_do_def)
qed

subsection \<open>Renaming\<close>

lemma remdups_drop_dup: "x \<in> set ys \<Longrightarrow> remdups (xs @ x # ys) = remdups (xs @ ys)"
  by (induction xs) auto

lemma columns_foldl_setitem:
  "distinct (columns acc) \<Longrightarrow>
   columns (foldl (\<lambda>acc (k, s). setitem (f k) s acc) acc d) =
   rev (remdups (rev (columns acc @ map f (columns d))))"
proof (induction d arbitrary: acc)
  case Nil
  then show ?case by (simp add: columns_def distinct_remdups_id)
next
  case (Cons p d)
  obtain k s where p: "p = (k, s)" by (cases p)
  have "distinct (columns (setitem (f k) s acc))"
    using Cons.prems by (rule distinct_setitem)
  from Cons.IH [OF this]
  have "columns (foldl (\<lambda>acc (k, s). setitem (f k) s acc) acc (p # d)) =
        rev (remdups (rev (columns (setitem (f k) s acc) @ map f (columns d))))"
    by (simp add: p)
  also have "remdups (rev (columns (setitem (f k) s acc) @ map f (columns d))) =
        remdups (rev (columns acc @ map f (columns (p # d))))"
  proof (cases "f k \<in> set (columns acc)")
    case True
    then have "f k \<in> set (rev (columns acc))" by simp
    then have "remdups (rev (map f (columns d)) @ f k # rev (columns acc)) =
               remdups (rev (map f (columns d)) @ rev (columns acc))"
      by (rule remdups_drop_dup)
    moreover have "columns (p # d) = k # columns d"
      by (simp add: p columns_def)
    ultimately show ?thesis
      using True by (simp add: columns_setitem)
  next
    case False
    moreover have "columns (p # d) = k # columns d"
      by (simp add: p columns_def)
    ultimately show ?thesis
      by (simp add: columns_setitem)
  qed
  finally show ?case .
qed

lemma columns_rename:
  "columns (rename m d) = rev (remdups (rev (map (new_name m) (columns d))))"
  using columns_foldl_setitem [of "[]" "new_name m" d]
  by (simp add: rename_def columns_def)

lemma new_name_own:
  "k \<in> set ks \<Longrightarrow> new_name (map (\<lambda>col. (col, g col)) ks) k = g k"
  by (simp add: new_name_def map_of_map_restrict)

lemma columns_normalized:
  "columns (normalized d) = rev (remdups (rev (map (\<lambda>col. lower (strip col)) (columns d))))"
proof -
  have "map (new_name (map (\<lambda>col. (col, lower (strip col))) (columns d))) (columns d) =
        map (\<lambda>col. lower (strip col)) (columns d)"
    by (rule map_cong) (simp_all add: new_name_own)
  then show ?thesis
    unfolding normalized_def columns_rename by (rule arg_cong)
qed

lemma columns_resolved:
  "columns (resolved d) = rev (remdups (rev (map canonical (columns d))))"
proof -
  have "columns (resolved d) =
        rev (remdups (map (new_name aliases) (remdups (rev (map (\<lambda>col. lower (strip col)) (columns d))))))"
    by (simp add: resolved_def columns_rename columns_normalized rev_map)
  also have "\<dots> = rev (remdups (map (new_name aliases) (rev (map (\<lambda>col. lower (strip col)) (columns d)))))"
    by (simp only: remdups_map_remdups)
  also have "\<dots> = rev (remdups (rev (map canonical (columns d))))"
    by (simp add: rev_map fun_eq_iff canonical_def comp_def cong: map_cong)
  finally show ?thesis .
qed

lemma distinct_columns_resolved: "distinct (columns (resolved d))"
  by (simp add: columns_resolved)


subsection \<open>The two casts of the timestamp columns\<close>

lemma assign_Inr:
  "assign k f d = Inr d' \<longleftrightarrow> (\<exists>s s'. map_of d k = Some s \<and> f s = Inr s' \<and> d' = setitem k s' d)"
  by (cases "map_of d k") (auto simp: assign_def getitem_def split: sum.splits)

lemma assign_columns: "assign k f d = Inr d' \<Longrightarrow> columns d' = columns d"
  unfolding assign_Inr using map_of_None_columns [of d k]
  by (auto simp: columns_setitem)

lemma assign_other: "assign k f d = Inr d' \<Longrightarrow> k' \<noteq> k \<Longrightarrow> map_of d' k' = map_of d k'"
  unfolding assign_Inr by (auto simp: map_of_setitem)

lemma assign_astype_dtype:
  "assign k (astype L t) d = Inr d' \<Longrightarrow> \<exists>s'. map_of d' k = Some s' \<and> dtype s' = t"
  unfolding assign_Inr by (auto simp: map_of_setitem dest: astype_dtype)


lemma cast_stampsE:
  assumes "cast_stamps L d = Inr d'"
  obtains d1 where "assign ''pickup_datetime'' (astype L ''datetime64[ms]'') d = Inr d1"
    and "assign ''dropoff_datetime'' (astype L ''datetime64[ms]'') d1 = Inr d'"
  using assms
  by (cases "assign ''pickup_datetime'' (astype L ''datetime64[ms]'') d")
     (simp_all add: cast_stamps_def then_do_def)

lemma cast_stamps_columns:
  assumes "cast_stamps L d = Inr d'"
  shows "columns d' = columns d"
proof -
  from assms obtain d1 where 1: "assign ''pickup_datetime'' (astype L ''datetime64[ms]'') d = Inr d1"
    and 2: "assign ''dropoff_datetime'' (astype L ''datetime64[ms]'') d1 = Inr d'"
    by (rule cast_stampsE)
  from assign_columns [OF 1] assign_columns [OF 2] show ?thesis by simp
qed


lemma cast_stamps_pickup:
  assumes "cast_stamps L d = Inr d'"
  shows "\<exists>s. map_of d' ''pickup_datetime'' = Some s \<and> dtype s = ''datetime64[ms]''"
proof -
  from assms obtain d1 where 1: "assign ''pickup_datetime'' (astype L ''datetime64[ms]'') d = Inr d1"
    and 2: "assign ''dropoff_datetime'' (astype L ''datetime64[ms]'') d1 = Inr d'"
    by (rule cast_stampsE)
  from assign_other [OF 2, of "''pickup_datetime''"] assign_astype_dtype [OF 1]
  show ?thesis by simp
qed

lemma cast_stamps_dropoff:
  assumes "cast_stamps L d = Inr d'"
  shows "\<exists>s. map_of d' ''dropoff_datetime'' = Some s \<and> dtype s = ''datetime64[ms]''"
proof -
  from assms obtain d1 where
    2: "assign ''dropoff_datetime'' (astype L ''datetime64[ms]'') d1 = Inr d'"
    by (rule cast_stampsE)
  from assign_astype_dtype [OF 2] show ?thesis .
qed




subsection \<open>\<open>clean\<close> as two renamings, two casts and the loop\<close>

lemma clean_process:
  "clean L d mh = then_do (cast_stamps L (resolved d)) (process L mh)"
proof (cases "cast_stamps L (resolved d)")
  case (Inl e)
  then show ?thesis
    by (auto simp: clean_def cast_stamps_def then_do_def split: sum.splits)
next
  case (Inr d')
  then have "distinct (columns d')"
    by (simp add: cast_stamps_columns distinct_columns_resolved)
  then have "clean_loop L mh (columns d') d' = process L mh d'"
    by (rule clean_loop_columns)
  with Inr show ?thesis
    by (auto simp: clean_def cast_stamps_def then_do_def split: sum.splits)
qed

lemma clean_Inr:
  "clean L d mh = Inr out \<longleftrightarrow>
   (\<exists>d'. cast_stamps L (resolved d) = Inr d' \<and> process L mh d' = Inr out)"
  by (simp add: clean_process then_do_def split: sum.splits)

lemma clean_columns:
  "clean L d mh = Inr out \<Longrightarrow>
   columns out = filter (\<lambda>k. k \<in> set (map fst mh)) (columns (resolved d))"
proof -
  assume "clean L d mh = Inr out"
  then obtain d' where 1: "cast_stamps L (resolved d) = Inr d'" and 2: "process L mh d' = Inr out"
    unfolding clean_Inr by blast
  from process_columns [OF 2] cast_stamps_columns [OF 1] show ?thesis by simp
qed


subsection \<open>Renaming without collisions\<close>

lemma foldl_setitem_distinct:
  "distinct (columns acc @ map f (columns d)) \<Longrightarrow>
   foldl (\<lambda>acc (k, s). setitem (f k) s acc) acc d = acc @ map (\<lambda>(k, s). (f k, s)) d"
proof (induction d arbitrary: acc)
  case Nil
  then show ?case by simp
next
  case (Cons p d)
  obtain k s where p: "p = (k, s)" by (cases p)
  from Cons.prems have fresh: "f k \<notin> set (columns acc)"
    by (auto simp: p columns_def)
  have "distinct (columns (acc @ [(f k, s)]) @ map f (columns d))"
    using Cons.prems by (auto simp: p columns_def)
  from Cons.IH [OF this] show ?case
    by (simp add: p setitem_fresh [OF fresh])
qed

lemma rename_distinct:
  "distinct (map (new_name m) (columns d)) \<Longrightarrow>
   rename m d = map (\<lambda>(k, s). (new_name m k, s)) d"
  using foldl_setitem_distinct [of "[]" "new_name m" d]
  by (simp add: rename_def columns_def)

lemma map_names_cong:
  "(\<And>k. k \<in> set (columns d) \<Longrightarrow> f k = g k) \<Longrightarrow>
   map (\<lambda>(k, s). (f k, s)) d = map (\<lambda>(k, s). (g k, s)) d"
  by (rule map_cong, simp, force simp: columns_def)

lemma map_names_id:
  "(\<And>k. k \<in> set (columns d) \<Longrightarrow> f k = k) \<Longrightarrow> map (\<lambda>(k, s). (f k, s)) d = d"
  by (rule map_idI) (force simp: columns_def)

lemma normalized_distinct:
  assumes "distinct (map (\<lambda>col. lower (strip col)) (columns d))"
  shows "normalized d = map (\<lambda>(k, s). (lower (strip k), s)) d"
proof -
  let ?tmp = "map (\<lambda>col. (col, lower (strip col))) (columns d)"
  have names: "map (new_name ?tmp) (columns d) = map (\<lambda>col. lower (strip col)) (columns d)"
    by (rule map_cong) (simp_all add: new_name_own)
  have "distinct (map (new_name ?tmp) (columns d))"
    unfolding names by (rule assms)
  then have "rename ?tmp d = map (\<lambda>(k, s). (new_name ?tmp k, s)) d"
    by (rule rename_distinct)
  also have "\<dots> = map (\<lambda>(k, s). (lower (strip k), s)) d"
    by (rule map_names_cong) (simp add: new_name_own)
  finally show ?thesis
    by (simp add: normalized_def)
qed

lemma resolved_distinct:
  assumes "distinct (map canonical (columns d))"
  shows "resolved d = map (\<lambda>(k, s). (canonical k, s)) d"
proof -
  have c: "map canonical (columns d) =
           map (new_name aliases) (map (\<lambda>col. lower (strip col)) (columns d))"
    by (simp add: canonical_def)
  from assms have "distinct (map (new_name aliases) (map (\<lambda>col. lower (strip col)) (columns d)))"
    by (simp only: c)
  then have 1: "distinct (map (\<lambda>col. lower (strip col)) (columns d))"
    by (metis distinct_map)
  have n: "normalized d = map (\<lambda>(k, s). (lower (strip k), s)) d"
    using 1 by (rule normalized_distinct)
  have cols: "columns (normalized d) = map (\<lambda>col. lower (strip col)) (columns d)"
    by (simp add: n columns_def case_prod_beta comp_def)
  with assms c have "distinct (map (new_name aliases) (columns (normalized d)))"
    by simp
  then have "rename aliases (normalized d) =
             map (\<lambda>(k, s). (new_name aliases k, s)) (normalized d)"
    by (rule rename_distinct)
  then show ?thesis
    by (simp add: resolved_def n canonical_def case_prod_beta comp_def)
qed

lemma resolved_fixed:
  assumes "distinct (columns d)" and "\<And>k. k \<in> set (columns d) \<Longrightarrow> canonical k = k"
  shows "resolved d = d"
proof -
  have "map canonical (columns d) = columns d"
    by (rule map_idI) (rule assms(2))
  with assms(1) have "distinct (map canonical (columns d))"
    by simp
  then have "resolved d = map (\<lambda>(k, s). (canonical k, s)) d"
    by (rule resolved_distinct)
  also have "\<dots> = d"
    by (rule map_names_id) (rule assms(2))
  finally show ?thesis .
qed

subsection \<open>The columns of the result\<close>

lemma map_of_schema: "map_of (schema d) k = map_option dtype (map_of d k)"
  by (induction d) (auto simp: schema_def)




lemma out_dtype_stamp: "out_dtype ''datetime64[ms]'' = ''datetime64[ms]''"
  by (simp add: out_dtype_def)

lemma clean_lookup_pickup:
  assumes "clean L d mh = Inr out" and "''pickup_datetime'' \<in> set (map fst mh)"
  shows "\<exists>s'. map_of out ''pickup_datetime'' = Some s' \<and> dtype s' = ''datetime64[ms]''"
proof -
  from assms(1) obtain d' where 1: "cast_stamps L (resolved d) = Inr d'"
    and 2: "process L mh d' = Inr out"
    unfolding clean_Inr by blast
  from cast_stamps_pickup [OF 1] obtain s where s: "map_of d' ''pickup_datetime'' = Some s"
    and dt: "dtype s = ''datetime64[ms]''"
    by blast
  from process_lookup [OF 2 assms(2) s] obtain s' where "out_series L s = Inr s'"
    and "map_of out ''pickup_datetime'' = Some s'"
    by blast
  with out_series_dtype [of L s s'] dt show ?thesis
    by (simp add: out_dtype_stamp)
qed

lemma clean_lookup_dropoff:
  assumes "clean L d mh = Inr out" and "''dropoff_datetime'' \<in> set (map fst mh)"
  shows "\<exists>s'. map_of out ''dropoff_datetime'' = Some s' \<and> dtype s' = ''datetime64[ms]''"
proof -
  from assms(1) obtain d' where 1: "cast_stamps L (resolved d) = Inr d'"
    and 2: "process L mh d' = Inr out"
    unfolding clean_Inr by blast
  from cast_stamps_dropoff [OF 1] obtain s where s: "map_of d' ''dropoff_datetime'' = Some s"
    and dt: "dtype s = ''datetime64[ms]''"
    by blast
  from process_lookup [OF 2 assms(2) s] obtain s' where "out_series L s = Inr s'"
    and "map_of out ''dropoff_datetime'' = Some s'"
    by blast
  with out_series_dtype [of L s s'] dt show ?thesis
    by (simp add: out_dtype_stamp)
qed

subsection \<open>Dtypes of the result, text columns, and a second pass\<close>





lemma assign_astype_same:
  "map_of d k = Some s \<Longrightarrow> dtype s = t \<Longrightarrow> assign k (astype L t) d = Inr d"
  by (simp add: assign_found astype_same setitem_same)

lemma canonical_must_haves: "\<forall>k \<in> set (map fst must_haves). canonical k = k"
  by code_simp

lemma clean_fixed:
  assumes "clean L d mh = Inr out"
    and "''pickup_datetime'' \<in> set (map fst mh)" and "''dropoff_datetime'' \<in> set (map fst mh)"
    and "\<forall>k \<in> set (map fst mh). canonical k = k"
  shows "clean L out mh = Inr out"
proof -
  from assms(1) obtain d' where 1: "cast_stamps L (resolved d) = Inr d'"
    and 2: "process L mh d' = Inr out"
    unfolding clean_Inr by blast
  have cols: "columns out = filter (\<lambda>k. k \<in> set (map fst mh)) (columns (resolved d))"
    using assms(1) by (rule clean_columns)
  have "distinct (columns out)"
    by (simp add: cols distinct_columns_resolved)
  moreover have "\<And>k. k \<in> set (columns out) \<Longrightarrow> canonical k = k"
  proof -
    fix k
    assume "k \<in> set (columns out)"
    then have "k \<in> set (map fst mh)"
      unfolding cols by simp
    with assms(4) show "canonical k = k"
      by blast
  qed
  ultimately have res: "resolved out = out"
    by (rule resolved_fixed)
  from clean_lookup_pickup [OF assms(1,2)] obtain s1
    where "map_of out ''pickup_datetime'' = Some s1" and "dtype s1 = ''datetime64[ms]''"
    by blast
  then have a1: "assign ''pickup_datetime'' (astype L ''datetime64[ms]'') out = Inr out"
    by (rule assign_astype_same)
  from clean_lookup_dropoff [OF assms(1,3)] obtain s2
    where "map_of out ''dropoff_datetime'' = Some s2" and "dtype s2 = ''datetime64[ms]''"
    by blast
  then have a2: "assign ''dropoff_datetime'' (astype L ''datetime64[ms]'') out = Inr out"
    by (rule assign_astype_same)
  have stamps: "cast_stamps L out = Inr out"
    by (simp add: cast_stamps_def then_do_def a1 a2)
  have "process L mh out = Inr out"
  proof (rule process_fixed)
    fix k s'
    assume "(k, s') \<in> set out"
    from process_member [OF 2 this] obtain s0 where "k \<in> set (map fst mh)"
      and "out_series L s0 = Inr s'"
      by blast
    then show "k \<in> set (map fst mh) \<and> out_series L s' = Inr s'"
      by (simp add: out_series_idem)
  qed
  then show ?thesis
    by (simp add: clean_process res stamps then_do_def)
qed


subsection \<open>When \<open>clean\<close> returns\<close>






subsection \<open>The store\<close>

lemma length_put_column: "length (put_column r col t h) = length h"
  by (simp add: put_column_def)

lemma take_put_column: "n \<le> r \<Longrightarrow> take n (put_column r col t h) = take n h"
  by (simp add: put_column_def)

lemma nth_put_column: "r < length h \<Longrightarrow> put_column r col t h ! r = setitem col t (h ! r)"
  by (simp add: put_column_def)

lemma put_column_same: "map_of (h ! r) col = Some s \<Longrightarrow> put_column r col s h = h"
  by (simp add: put_column_def setitem_same)

lemma seq_ret: "seq (ret x) g h = g x h"
  by (simp add: seq_def ret_def)

lemma seq_rename_ref:
  "seq (rename_ref mapper r) g h = g (length h) (h @ [rename mapper (h ! r)])"
  by (simp add: seq_def rename_ref_def)

lemma seq_getitem_put:
  "r < length h \<Longrightarrow>
   seq (getitem_ref r col) g (put_column r col t h) = g t (put_column r col t h)"
  by (simp add: seq_def getitem_ref_def getitem_def nth_put_column map_of_setitem)

lemma seq_assign_put:
  "r < length h \<Longrightarrow>
   seq (assign_ref col f r) g (put_column r col t h) =
   (case f t of Inl e \<Rightarrow> (Inl e, put_column r col t h) | Inr t' \<Rightarrow> g () (put_column r col t' h))"
  by (cases "f t")
     (simp_all add: seq_def assign_ref_def assign_def getitem_def nth_put_column map_of_setitem
        put_column_def setitem_twice)

lemma clean_column_ref_retained:
  assumes "r < length h" and "col \<in> set (map fst mh)" and "map_of (h ! r) col = Some s"
  shows "\<exists>t. clean_column_ref L mh col r h =
           (case out_series L s of
              Inl e \<Rightarrow> (Inl e, put_column r col t h)
            | Inr s' \<Rightarrow> (Inr r, put_column r col s' h))"
proof -
  have h: "h = put_column r col s h"
    using assms(3) by (simp add: put_column_same)
  have start: "clean_column_ref L mh col r h =
      (if dtype s = ''object'' then
          seq (assign_ref col (\<lambda>s. Inr (str_fillna L ''-1'' s)) r) (\<lambda>_.
          seq (assign_ref col (astype L ''float32'') r) (\<lambda>_. ret r))
        else
          seq (if contains ''int'' (dtype s)
               then assign_ref col (astype L ''int32'') r else ret ()) (\<lambda>_.
          seq (getitem_ref r col) (\<lambda>s.
          seq (if contains ''float'' (dtype s)
               then assign_ref col (astype L ''float32'') r else ret ()) (\<lambda>_.
          seq (assign_ref col (\<lambda>s. Inr (num_fillna L (- 1) s)) r) (\<lambda>_. ret r))))) (put_column r col s h)"
    using assms(2,3)
    by (subst h) (simp add: clean_column_ref_def seq_getitem_put [OF assms(1)])
  show ?thesis
  proof (cases "dtype s = ''object''")
    case True
    then show ?thesis
      unfolding start
      by (cases "astype L ''float32'' (str_fillna L ''-1'' s)")
         (auto simp: seq_assign_put [OF assms(1)] out_series_def ret_def)
  next
    case False
    let ?a = "if contains ''int'' (dtype s) then astype L ''int32'' s else Inr s"
    have 1: "\<And>g. seq (if contains ''int'' (dtype s)
               then assign_ref col (astype L ''int32'') r else ret ()) g (put_column r col s h) =
          (case ?a of Inl e \<Rightarrow> (Inl e, put_column r col s h)
           | Inr t \<Rightarrow> g () (put_column r col t h))"
      by (simp add: seq_assign_put [OF assms(1)] seq_ret)
    show ?thesis
    proof (cases ?a)
      case (Inl e)
      with False show ?thesis
        unfolding start by (auto simp: 1 out_series_def then_do_def)
    next
      case (Inr t)
      let ?b = "if contains ''float'' (dtype t) then astype L ''float32'' t else Inr t"
      have 2: "\<And>g. seq (if contains ''float'' (dtype t)
               then assign_ref col (astype L ''float32'') r else ret ()) g (put_column r col t h) =
          (case ?b of Inl e \<Rightarrow> (Inl e, put_column r col t h)
           | Inr u \<Rightarrow> g () (put_column r col u h))"
        by (simp add: seq_assign_put [OF assms(1)] seq_ret)
      from False Inr have run: "clean_column_ref L mh col r h =
          (case ?b of Inl e \<Rightarrow> (Inl e, put_column r col t h)
           | Inr u \<Rightarrow> (Inr r, put_column r col (num_fillna L (- 1) u) h))"
        unfolding start
        by (simp add: 1 2 seq_getitem_put [OF assms(1)] seq_assign_put [OF assms(1)] ret_def
            cong: sum.case_cong)
      from False Inr have pure: "out_series L s =
          (case ?b of Inl e \<Rightarrow> Inl e | Inr u \<Rightarrow> Inr (num_fillna L (- 1) u))"
        by (simp add: out_series_def then_do_def)
      show ?thesis
        unfolding run pure by (cases ?b) auto
    qed
  qed
qed

lemma agrees_drop:
  assumes "n \<le> r" and "r < length h"
  shows "agrees n h (drop_ref col r h) (drop_column col (h ! r))"
  using assms by (cases "drop_column col (h ! r)") (simp_all add: agrees_def drop_ref_def nth_append)

lemma agrees_retained:
  assumes "n \<le> r" and "r < length h" and "col \<in> set (map fst mh)"
  shows "agrees n h (clean_column_ref L mh col r h) (clean_column L mh col (h ! r))"
proof (cases "map_of (h ! r) col")
  case None
  with assms show ?thesis
    by (simp add: clean_column_ref_def clean_column_def seq_def getitem_ref_def getitem_def
        then_do_def agrees_def)
next
  case (Some s)
  from clean_column_ref_retained [OF assms(2,3) Some, of L] obtain t
    where run: "clean_column_ref L mh col r h =
           (case out_series L s of
              Inl e \<Rightarrow> (Inl e, put_column r col t h)
            | Inr s' \<Rightarrow> (Inr r, put_column r col s' h))"
    by blast
  have pure: "clean_column L mh col (h ! r) =
         (case out_series L s of Inl e \<Rightarrow> Inl e | Inr s' \<Rightarrow> Inr (setitem col s' (h ! r)))"
    using assms(3) Some by (rule clean_column_retained)
  from assms(1,2) show ?thesis
    unfolding run pure
    by (cases "out_series L s")
       (simp_all add: agrees_def length_put_column take_put_column nth_put_column)
qed

lemma agrees_column:
  assumes "n \<le> r" and "r < length h"
  shows "agrees n h (clean_column_ref L mh col r h) (clean_column L mh col (h ! r))"
proof (cases "col \<in> set (map fst mh)")
  case True
  with assms show ?thesis by (rule agrees_retained)
next
  case False
  with agrees_drop [OF assms] show ?thesis
    by (simp add: clean_column_ref_def clean_column_def)
qed

lemma agrees_loop:
  "n \<le> r \<Longrightarrow> r < length h \<Longrightarrow>
   agrees n h (clean_loop_ref L mh cols r h) (clean_loop L mh cols (h ! r))"
proof (induction cols arbitrary: r h)
  case Nil
  then show ?case by (simp add: agrees_def ret_def)
next
  case (Cons col cols)
  obtain x h1 where run: "clean_column_ref L mh col r h = (x, h1)"
    by (cases "clean_column_ref L mh col r h")
  from agrees_column [OF Cons.prems, of L mh col]
  have step: "agrees n h (x, h1) (clean_column L mh col (h ! r))"
    by (simp add: run)
  show ?case
  proof (cases "clean_column L mh col (h ! r)")
    case (Inl e)
    with step show ?thesis
      by (cases x) (simp_all add: agrees_def seq_def run then_do_def)
  next
    case (Inr d1)
    with step obtain r1 where x: "x = Inr r1" and r1: "n \<le> r1" "r1 < length h1"
      and d1: "h1 ! r1 = d1" and len: "length h \<le> length h1" and keep: "take n h1 = take n h"
      by (cases x) (auto simp: agrees_def)
    from Cons.IH [OF r1]
    have "agrees n h1 (clean_loop_ref L mh cols r1 h1) (clean_loop L mh cols d1)"
      by (simp add: d1)
    with len keep have "agrees n h (clean_loop_ref L mh cols r1 h1) (clean_loop L mh cols d1)"
      by (auto simp: agrees_def)
    then show ?thesis
      by (simp add: seq_def run x Inr then_do_def)
  qed
qed

lemma agrees_clean:
  assumes "r < length h"
  shows "agrees (length h) h (clean_ref L r mh h) (clean L (h ! r) mh)"
proof -
  let ?n = "length h"
  let ?d2 = "resolved (h ! r)"
  let ?h2 = "h @ [normalized (h ! r), ?d2]"
  let ?r2 = "Suc ?n"
  have r2: "?n \<le> ?r2" "?r2 < length ?h2" and at2: "?h2 ! ?r2 = ?d2"
    by (simp_all add: nth_append)
  have renames: "clean_ref L r mh h =
      seq (assign_ref ''pickup_datetime'' (astype L ''datetime64[ms]'') ?r2) (\<lambda>_.
      seq (assign_ref ''dropoff_datetime'' (astype L ''datetime64[ms]'') ?r2) (\<lambda>_.
      (\<lambda>h. clean_loop_ref L mh (columns (h ! ?r2)) ?r2 h))) ?h2"
    using assms
    by (simp add: clean_ref_def seq_rename_ref normalized_def resolved_def nth_append)
  show ?thesis
  proof (cases "assign ''pickup_datetime'' (astype L ''datetime64[ms]'') ?d2")
    case (Inl e)
    then show ?thesis
      unfolding renames
      by (simp add: seq_def assign_ref_def at2 clean_def then_do_def agrees_def)
  next
    case d3: (Inr d3)
    let ?h3 = "?h2[?r2 := d3]"
    have r3: "?r2 < length ?h3" and at3: "?h3 ! ?r2 = d3" and keep3: "take ?n ?h3 = h"
      by simp_all
    show ?thesis
    proof (cases "assign ''dropoff_datetime'' (astype L ''datetime64[ms]'') d3")
      case (Inl e)
      with d3 show ?thesis
        unfolding renames
        by (simp add: seq_def assign_ref_def at2 clean_def then_do_def agrees_def)
    next
      case d4: (Inr d4)
      let ?h4 = "?h3[?r2 := d4]"
      have r4: "?r2 < length ?h4" and at4: "?h4 ! ?r2 = d4" and keep4: "take ?n ?h4 = h"
        and len4: "?n \<le> length ?h4"
        by simp_all
      from agrees_loop [OF r2(1) r4, of L mh "columns d4"]
      have "agrees ?n ?h4 (clean_loop_ref L mh (columns d4) ?r2 ?h4) (clean_loop L mh (columns d4) d4)"
        by (simp only: at4)
      then have "agrees ?n h (clean_loop_ref L mh (columns d4) ?r2 ?h4) (clean_loop L mh (columns d4) d4)"
        using keep4 len4 by (auto simp: agrees_def)
      moreover have "clean_ref L r mh h = clean_loop_ref L mh (columns d4) ?r2 ?h4"
        unfolding renames using d3 d4
        by (simp add: seq_def assign_ref_def at2)
      moreover have "clean L (h ! r) mh = clean_loop L mh (columns d4) d4"
        using d3 d4 by (simp add: clean_def then_do_def)
      ultimately show ?thesis
        by simp
    qed
  qed
qed

subsection \<open>The two partitions, cleaned\<close>

lemma run_2014: "clean ref_lib batch_2014 must_haves = Inr clean_2014"
  by code_simp

lemma run_2015: "clean ref_lib batch_2015 must_haves = Inr clean_2015"
  by code_simp



section \<open>The claims\<close>






text \<open>
  C7. No column of the batch that \<open>clean\<close> returns has a missing entry, the timestamp
  columns included.
\<close>

theorem clean_no_missing:
  assumes "clean L ddf mh = Inr out" and "(col, s) \<in> set out"
  shows "None \<notin> set (cells s)"
proof -
  from assms(1) obtain d' where "process L mh d' = Inr out"
    unfolding clean_Inr by blast
  from process_member [OF this assms(2)] obtain s0 where "out_series L s0 = Inr s"
    by blast
  then show ?thesis
    by (rule out_series_no_missing)
qed

theorem clean_no_missing_witness:
  "clean ref_lib batch_2015 must_haves = Inr clean_2015 \<and>
   (''pickup_datetime'', Series ''datetime64[ms]''
      [Some (Num 1421348739000), Some (Num (- 1)), Some (Num 1421348740000)]) \<in> set clean_2015 \<and>
   None \<notin> set [Some (Num 1421348739000), Some (Num (- 1)), Some (Num 1421348740000)]"
proof -
  note r = run_2015
  have m: "(''pickup_datetime'', Series ''datetime64[ms]''
      [Some (Num 1421348739000), Some (Num (- 1)), Some (Num 1421348740000)]) \<in> set clean_2015"
    by (simp add: clean_2015_def)
  from clean_no_missing [OF r m] r m show ?thesis
    by simp
qed

text \<open>
  C10. In every batch that \<open>clean\<close> returns, \<open>pickup_datetime\<close> and \<open>dropoff_datetime\<close> have
  the dtype \<open>datetime64[ms]\<close>, while \<open>must_haves\<close> declares \<open>datetime64[s]\<close> for both.
\<close>

theorem clean_stamps_milliseconds:
  assumes "clean L ddf must_haves = Inr out"
  shows "map_of (schema out) ''pickup_datetime'' = Some ''datetime64[ms]'' \<and>
         map_of (schema out) ''dropoff_datetime'' = Some ''datetime64[ms]'' \<and>
         map_of must_haves ''pickup_datetime'' = Some ''datetime64[s]'' \<and>
         map_of must_haves ''dropoff_datetime'' = Some ''datetime64[s]''"
proof -
  have "''pickup_datetime'' \<in> set (map fst must_haves)"
    and "''dropoff_datetime'' \<in> set (map fst must_haves)"
    by (simp_all add: must_haves_def)
  from clean_lookup_pickup [OF assms this(1)] clean_lookup_dropoff [OF assms this(2)]
  have "map_of (schema out) ''pickup_datetime'' = Some ''datetime64[ms]''"
    and "map_of (schema out) ''dropoff_datetime'' = Some ''datetime64[ms]''"
    by (auto simp: map_of_schema)
  then show ?thesis
    by (simp add: must_haves_def)
qed

theorem clean_stamps_milliseconds_witness:
  "clean ref_lib batch_2014 must_haves = Inr clean_2014 \<and>
   map_of (schema clean_2014) ''pickup_datetime'' = Some ''datetime64[ms]'' \<and>
   map_of (schema clean_2014) ''dropoff_datetime'' = Some ''datetime64[ms]'' \<and>
   map_of must_haves ''pickup_datetime'' = Some ''datetime64[s]'' \<and>
   map_of must_haves ''dropoff_datetime'' = Some ''datetime64[s]''"
proof -
  note r = run_2014
  from clean_stamps_milliseconds [OF r] r show ?thesis
    by simp
qed









text \<open>
  C6. \<open>clean\<close> applied to a batch it returned (for \<open>must_haves\<close>) returns that batch again.
  No condition on the raw batch is needed beyond \<open>clean\<close> returning.
\<close>

theorem clean_idempotent:
  assumes "clean L ddf must_haves = Inr out"
  shows "clean L out must_haves = Inr out"
proof -
  have "''pickup_datetime'' \<in> set (map fst must_haves)"
    and "''dropoff_datetime'' \<in> set (map fst must_haves)"
    by (simp_all add: must_haves_def)
  with assms show ?thesis
    using canonical_must_haves by (rule clean_fixed)
qed

theorem clean_idempotent_witness:
  "clean ref_lib batch_2015 must_haves = Inr clean_2015 \<and>
   clean ref_lib clean_2015 must_haves = Inr clean_2015"
  using clean_idempotent [OF run_2015] run_2015 by simp



text \<open>
  C9. \<open>clean\<close> works on objects of its own: the first renaming builds a new frame, and
  every later assignment goes to a frame built inside the call. After the call every
  object that existed before it, the caller's batch among them, is what it was; the call
  raises what \<open>clean\<close> on frames raises, or returns a reference to a new object that holds
  the frame \<open>clean\<close> returns.
\<close>

theorem clean_leaves_input:
  assumes "r < length h"
  shows "take (length h) (snd (clean_ref L r mh h)) = h \<and>
         snd (clean_ref L r mh h) ! r = h ! r \<and>
         (case clean L (h ! r) mh of
            Inl e \<Rightarrow> fst (clean_ref L r mh h) = Inl e
          | Inr out \<Rightarrow> (\<exists>r'. fst (clean_ref L r mh h) = Inr r' \<and> length h \<le> r' \<and>
                        snd (clean_ref L r mh h) ! r' = out))"
proof -
  obtain x h' where run: "clean_ref L r mh h = (x, h')"
    by (cases "clean_ref L r mh h")
  from agrees_clean [OF assms, of L mh]
  have a: "agrees (length h) h (x, h') (clean L (h ! r) mh)"
    by (simp add: run)
  then have keep: "take (length h) h' = h"
    by (simp add: agrees_def)
  from assms have "h' ! r = take (length h) h' ! r"
    by simp
  with keep have "h' ! r = h ! r"
    by simp
  moreover from a have "case clean L (h ! r) mh of
            Inl e \<Rightarrow> x = Inl e
          | Inr out \<Rightarrow> (\<exists>r'. x = Inr r' \<and> length h \<le> r' \<and> h' ! r' = out)"
    by (cases "clean L (h ! r) mh"; cases x) (auto simp: agrees_def)
  ultimately show ?thesis
    unfolding run fst_conv snd_conv using keep by blast
qed

theorem clean_leaves_input_witness:
  "(0::nat) < length [only_stamps] \<and>
   clean_ref ref_lib 0 must_haves [only_stamps] =
     (Inr 2, [only_stamps, only_stamps,
              [(''pickup_datetime'', Series ''datetime64[ms]'' [Some (Num 1389297000000), Some (Num (- 1))]),
               (''dropoff_datetime'', Series ''datetime64[ms]'' [Some (Num 1389297420000), Some (Num (- 1))])]]) \<and>
   take (length [only_stamps]) (snd (clean_ref ref_lib 0 must_haves [only_stamps])) = [only_stamps] \<and>
   snd (clean_ref ref_lib 0 must_haves [only_stamps]) ! 0 = [only_stamps] ! 0"
proof -
  have h: "(0::nat) < length [only_stamps]"
    by simp
  have r: "clean_ref ref_lib 0 must_haves [only_stamps] =
     (Inr 2, [only_stamps, only_stamps,
              [(''pickup_datetime'', Series ''datetime64[ms]'' [Some (Num 1389297000000), Some (Num (- 1))]),
               (''dropoff_datetime'', Series ''datetime64[ms]'' [Some (Num 1389297420000), Some (Num (- 1))])]])"
    by code_simp
  from clean_leaves_input [OF h, of ref_lib must_haves] r h show ?thesis
    by simp
qed

end
